theory Spec2Isabelle
  imports Main "HOL-Library.Word"
begin

unbundle bit_operations_syntax

section \<open>Data model\<close>

text \<open>
  The driver of \<^verbatim>\<open>tm1637.cpp\<close> targets the RP2040 (it includes \<^verbatim>\<open>pico/stdlib.h\<close>), a 32-bit
  ARM core: \<^verbatim>\<open>uint8_t\<close> is an 8-bit word and \<^verbatim>\<open>size_t\<close> a 32-bit word.  A
  \<^verbatim>\<open>std::vector<uint8_t>\<close> is a list of bytes, a \<^verbatim>\<open>std::string\<close> a list of 8-bit characters.
\<close>

type_synonym uint8_t = "8 word"
type_synonym size_t = "32 word"
type_synonym Segments = "uint8_t list"

text \<open>
  The two ways an operation of the driver can leave its normal path: \<^verbatim>\<open>std::vector::at\<close>
  finds its index out of range (it throws \<^verbatim>\<open>std::out_of_range\<close>, or aborts when the firmware is
  built without exceptions), or the unchecked \<^verbatim>\<open>operator[]\<close> is used past the end of the
  vector, which C++ leaves undefined.
\<close>

datatype error = Out_Of_Range | Undefined_Behaviour

text \<open>
  The platform is seen through the calls the driver makes to it; each call is logged in
  program order.
\<close>

datatype gpio_event =
    Gpio_Init uint8_t
  | Gpio_Set_Dir uint8_t bool
  | Gpio_Pull_Up uint8_t
  | Gpio_Put uint8_t bool
  | Sleep_Us nat

text \<open>
  The three private members \<^verbatim>\<open>clk_\<close>, \<^verbatim>\<open>dio_\<close> and \<^verbatim>\<open>brightness_\<close> of \<^verbatim>\<open>class TM1637\<close>
  (a name cannot end in an underscore here, so they carry the prefix \<open>m_\<close>), together with
  the log of platform calls made so far on the lines the object drives.  The private methods
  \<^verbatim>\<open>_start\<close>, \<^verbatim>\<open>_stop\<close>, \<^verbatim>\<open>_write_byte\<close>, \<^verbatim>\<open>_write_data_cmd\<close>, \<^verbatim>\<open>_write_dsp_ctrl\<close> and the table
  \<^verbatim>\<open>_SEGMENTS\<close> lose their leading underscore for the same reason.
\<close>

record tm1637 =
  m_clk :: uint8_t
  m_dio :: uint8_t
  m_brightness :: uint8_t
  wire :: "gpio_event list"

section \<open>Constants\<close>

definition TM1637_CMD1 :: uint8_t where "TM1637_CMD1 = 0x40"
definition TM1637_CMD2 :: uint8_t where "TM1637_CMD2 = 0xC0"
definition TM1637_CMD3 :: uint8_t where "TM1637_CMD3 = 0x80"
definition TM1637_DSP_ON :: uint8_t where "TM1637_DSP_ON = 0x08"
definition TM1637_DELAY :: uint8_t where "TM1637_DELAY = 10"
definition TM1637_MSB :: uint8_t where "TM1637_MSB = 0x80"

text \<open>The table \<^verbatim>\<open>_SEGMENTS\<close>: 0-9, a-z, blank, dash, star.\<close>

definition SEGMENTS :: "uint8_t list" where
  "SEGMENTS =
    [0x3F, 0x06, 0x5B, 0x4F, 0x66, 0x6D, 0x7D, 0x07, 0x7F, 0x6F,
     0x77, 0x7C, 0x39, 0x5E, 0x79, 0x71, 0x3D, 0x76, 0x06, 0x1E,
     0x76, 0x38, 0x55, 0x54, 0x5C, 0x73, 0x67, 0x50, 0x6D, 0x78,
     0x3E, 0x1C, 0x2A, 0x76, 0x6E, 0x5B,
     0x00, 0x40, 0x63]"

section \<open>Platform calls\<close>

definition gpio_init :: "uint8_t \<Rightarrow> tm1637 \<Rightarrow> tm1637" where
  "gpio_init pin s = s\<lparr>wire := wire s @ [Gpio_Init pin]\<rparr>"

definition gpio_set_dir :: "uint8_t \<Rightarrow> bool \<Rightarrow> tm1637 \<Rightarrow> tm1637" where
  "gpio_set_dir pin out s = s\<lparr>wire := wire s @ [Gpio_Set_Dir pin out]\<rparr>"

definition gpio_pull_up :: "uint8_t \<Rightarrow> tm1637 \<Rightarrow> tm1637" where
  "gpio_pull_up pin s = s\<lparr>wire := wire s @ [Gpio_Pull_Up pin]\<rparr>"

definition gpio_put :: "uint8_t \<Rightarrow> bool \<Rightarrow> tm1637 \<Rightarrow> tm1637" where
  "gpio_put pin v s = s\<lparr>wire := wire s @ [Gpio_Put pin v]\<rparr>"

definition sleep_us :: "uint8_t \<Rightarrow> tm1637 \<Rightarrow> tm1637" where
  "sleep_us n s = s\<lparr>wire := wire s @ [Sleep_Us (unat n)]\<rparr>"

text \<open>A block of statements runs them in program order.\<close>

definition block :: "('s \<Rightarrow> 's) list \<Rightarrow> 's \<Rightarrow> 's" where
  "block stmts s = fold (\<lambda>stmt. stmt) stmts s"

section \<open>Protocol primitives\<close>

definition start :: "tm1637 \<Rightarrow> tm1637" where
  "start s = block
     [gpio_put (m_clk s) True, sleep_us TM1637_DELAY,
      gpio_put (m_dio s) True, sleep_us TM1637_DELAY,
      gpio_put (m_dio s) False, sleep_us TM1637_DELAY,
      gpio_put (m_clk s) False, sleep_us TM1637_DELAY] s"

definition stop :: "tm1637 \<Rightarrow> tm1637" where
  "stop s = block
     [gpio_put (m_clk s) False, sleep_us TM1637_DELAY,
      gpio_put (m_dio s) False, sleep_us TM1637_DELAY,
      gpio_put (m_clk s) True, sleep_us TM1637_DELAY,
      gpio_put (m_dio s) True] s"

text \<open>
  \<^verbatim>\<open>_write_byte\<close>: the loop \<^verbatim>\<open>for (int i = 0; i < 8; ++i)\<close> puts \<^verbatim>\<open>(b >> i) & 1\<close> on the data
  line and pulses the clock; one more clock pulse follows the eight bits.
\<close>

definition write_bit :: "uint8_t \<Rightarrow> nat \<Rightarrow> tm1637 \<Rightarrow> tm1637" where
  "write_bit b i s = block
     [gpio_put (m_dio s) (drop_bit i b AND 1 \<noteq> 0), sleep_us TM1637_DELAY,
      gpio_put (m_clk s) True, sleep_us TM1637_DELAY,
      gpio_put (m_clk s) False, sleep_us TM1637_DELAY] s"

definition write_byte :: "uint8_t \<Rightarrow> tm1637 \<Rightarrow> tm1637" where
  "write_byte b s = block
     [fold (write_bit b) [0..<8],
      gpio_put (m_clk s) False, sleep_us TM1637_DELAY,
      gpio_put (m_clk s) True, sleep_us TM1637_DELAY,
      gpio_put (m_clk s) False, sleep_us TM1637_DELAY] s"

definition write_data_cmd :: "tm1637 \<Rightarrow> tm1637" where
  "write_data_cmd s = block [start, write_byte TM1637_CMD1, stop] s"

definition write_dsp_ctrl :: "tm1637 \<Rightarrow> tm1637" where
  "write_dsp_ctrl s =
     block [start, write_byte (TM1637_CMD3 OR TM1637_DSP_ON OR m_brightness s), stop] s"

section \<open>Construction and brightness\<close>

text \<open>
  The constructor binds the two lines, stores \<^verbatim>\<open>std::min(uint8_t(0x07), brightness)\<close>, configures
  both pins (\<^verbatim>\<open>GPIO_OUT\<close> is \<open>True\<close>) and sends the two commands.  Its last argument is the log of
  platform calls made before the object exists.
\<close>

definition TM1637 :: "uint8_t \<Rightarrow> uint8_t \<Rightarrow> uint8_t \<Rightarrow> gpio_event list \<Rightarrow> tm1637" where
  "TM1637 clk dio brightness w = block
     [gpio_init clk, gpio_set_dir clk True, gpio_pull_up clk,
      gpio_init dio, gpio_set_dir dio True, gpio_pull_up dio,
      gpio_put clk False, gpio_put dio False,
      write_data_cmd, write_dsp_ctrl]
     \<lparr>m_clk = clk, m_dio = dio, m_brightness = min 0x07 brightness, wire = w\<rparr>"

definition brightness :: "uint8_t \<Rightarrow> tm1637 \<Rightarrow> uint8_t \<times> tm1637" where
  "brightness val s =
     (let s = s\<lparr>m_brightness := val AND 0x07\<rparr>;
          s = write_data_cmd s;
          s = write_dsp_ctrl s
      in (m_brightness s, s))"

section \<open>Writing segments\<close>

text \<open>
  The index expression \<^verbatim>\<open>uint8_t(i / 3) * 6 + 2 - i\<close> of \<^verbatim>\<open>write\<close>: the quotient is cut to 8 bits,
  promoted to \<^verbatim>\<open>int\<close> for the product and the sum, and the difference with the \<^verbatim>\<open>size_t\<close>
  \<^verbatim>\<open>i\<close> is taken in \<^verbatim>\<open>size_t\<close>, where it wraps around.
\<close>

definition write_index :: "size_t \<Rightarrow> size_t" where
  "write_index i = word_of_int (uint (ucast (i div 3) :: uint8_t) * 6 + 2) - i"

text \<open>
  The loop \<^verbatim>\<open>for (size_t i = 0; i < segments.size(); ++i)\<close>.  \<^verbatim>\<open>segments.at\<close> checks its index:
  out of range, the loop is left with the error and the state reached so far.
\<close>

function write_loop :: "Segments \<Rightarrow> nat \<Rightarrow> tm1637 \<Rightarrow> (error + unit) \<times> tm1637" where
  "write_loop segments i s =
     (if i < length segments then
        (let idx = unat (write_index (of_nat i)) in
         if idx < length segments
         then write_loop segments (Suc i) (write_byte (segments ! idx) s)
         else (Inl Out_Of_Range, s))
      else (Inr (), s))"
  by pat_completeness auto
termination
  by (relation "measure (\<lambda>(segments, i, s). length segments - i)") auto

text \<open>
  \<^verbatim>\<open>TM1637::write\<close> (\<open>write\<close> and \<open>show\<close> are reserved words here: the methods are
  \<open>write_segments\<close> and, below, \<open>show_text\<close>).
\<close>

definition write_segments :: "Segments \<Rightarrow> uint8_t \<Rightarrow> tm1637 \<Rightarrow> (error + unit) \<times> tm1637" where
  "write_segments segments pos s =
     (let pos = min pos 0x05;
          s = write_data_cmd s;
          s = start s;
          s = write_byte (TM1637_CMD2 OR pos) s
      in case write_loop segments 0 s of
           (Inl e, s) \<Rightarrow> (Inl e, s)
         | (Inr u, s) \<Rightarrow> (Inr u, write_dsp_ctrl (stop s)))"

section \<open>Segment encoding\<close>

definition encode_digit :: "uint8_t \<Rightarrow> uint8_t" where
  "encode_digit digit = SEGMENTS ! unat (digit AND 0x0f)"

text \<open>
  \<^verbatim>\<open>encode_char\<close> compares the character code.  Codes above 127 (negative ones where \<^verbatim>\<open>char\<close> is
  signed) satisfy none of the tests either way.
\<close>

definition encode_char :: "char \<Rightarrow> uint8_t" where
  "encode_char ch =
     (let c = (of_char ch :: nat) in
      if c = 32 then SEGMENTS ! 36
      else if c = 42 then SEGMENTS ! 38
      else if c = 45 then SEGMENTS ! 37
      else if c \<ge> 65 \<and> c \<le> 90 then SEGMENTS ! (c - 55)
      else if c \<ge> 97 \<and> c \<le> 122 then SEGMENTS ! (c - 87)
      else if c \<ge> 48 \<and> c \<le> 57 then SEGMENTS ! (c - 48)
      else SEGMENTS ! 38)"

text \<open>The first loop of \<^verbatim>\<open>encode_string\<close> counts the characters other than the dot.\<close>

fun count_loop :: "string \<Rightarrow> nat \<Rightarrow> nat" where
  "count_loop [] d = d"
| "count_loop (c # cs) d = count_loop cs (if c \<noteq> CHR ''.'' then d + 1 else d)"

text \<open>
  The second loop walks the string with the write position \<open>j\<close>.  \<^verbatim>\<open>segments.at(j - 1)\<close> is
  checked; \<^verbatim>\<open>segments[j]\<close> is not, and past the end of the vector its behaviour is undefined.
\<close>

fun encode_loop :: "string \<Rightarrow> Segments \<Rightarrow> nat \<Rightarrow> error + Segments" where
  "encode_loop [] segments j = Inr segments"
| "encode_loop (c # cs) segments j =
     (if c = CHR ''.'' \<and> j > 0 then
        (if j - 1 < length segments
         then encode_loop cs (segments[j - 1 := segments ! (j - 1) OR TM1637_MSB]) j
         else Inl Out_Of_Range)
      else
        (if j < length segments
         then encode_loop cs (segments[j := encode_char c]) (j + 1)
         else Inl Undefined_Behaviour))"

text \<open>The loop \<^verbatim>\<open>while (segments.size() < 6) segments.push_back(encode_char(' '))\<close>.\<close>

function pad_loop :: "Segments \<Rightarrow> Segments" where
  "pad_loop segments =
     (if length segments < 6 then pad_loop (segments @ [encode_char CHR '' '']) else segments)"
  by pat_completeness auto
termination
  by (relation "measure (\<lambda>segments. 6 - length segments)") auto

text \<open>\<^verbatim>\<open>segments.resize(d)\<close> on the new vector gives \<open>d\<close> zero bytes.\<close>

definition encode_string :: "string \<Rightarrow> error + Segments" where
  "encode_string str =
     (let d = count_loop str 0;
          segments = replicate d (0 :: uint8_t)
      in case encode_loop str segments 0 of
           Inl e \<Rightarrow> Inl e
         | Inr segments \<Rightarrow> Inr (pad_loop segments))"

section \<open>Display entry points\<close>

text \<open>
  The stream insertions \<^verbatim>\<open>ss << std::dec << std::setw(6) << num\<close> and
  \<^verbatim>\<open>ss << std::hex << std::setw(6) << val\<close>: the digits of the value in the base, most significant
  first, filled on the left with spaces up to the width; a longer text is not cut.
\<close>

definition digit_char :: "nat \<Rightarrow> char" where
  "digit_char k = ''0123456789abcdef'' ! k"

function number_text :: "nat \<Rightarrow> nat \<Rightarrow> string" where
  "number_text base n =
     (if base < 2 \<or> n < base then [digit_char n]
      else number_text base (n div base) @ [digit_char (n mod base)])"
  by pat_completeness auto
termination
  by (relation "measure (\<lambda>(base, n). n)") auto

definition setw :: "nat \<Rightarrow> string \<Rightarrow> string" where
  "setw w txt = replicate (w - length txt) CHR '' '' @ txt"

definition show_text :: "string \<Rightarrow> bool \<Rightarrow> tm1637 \<Rightarrow> (error + unit) \<times> tm1637" where
  "show_text str colon s =
     (case encode_string str of
        Inl e \<Rightarrow> (Inl e, s)
      | Inr segments \<Rightarrow> write_segments segments 0 s)"

definition hex :: "16 word \<Rightarrow> tm1637 \<Rightarrow> (error + unit) \<times> tm1637" where
  "hex val s =
     (case encode_string (setw 6 (number_text 16 (unat val))) of
        Inl e \<Rightarrow> (Inl e, s)
      | Inr segments \<Rightarrow> write_segments segments 0 s)"

definition number :: "32 word \<Rightarrow> tm1637 \<Rightarrow> (error + unit) \<times> tm1637" where
  "number num s =
     (case encode_string (setw 6 (number_text 10 (unat num))) of
        Inl e \<Rightarrow> (Inl e, s)
      | Inr segments \<Rightarrow> write_segments segments 0 s)"

section \<open>The specification's wording\<close>

text \<open>
  The protocol primitives as the specification words them, as signals on a clock line and a
  data line: each line-level change is followed by the delay of 10 microseconds, except the
  last change of the stop condition.
\<close>

definition spec_start_condition :: "uint8_t \<Rightarrow> uint8_t \<Rightarrow> gpio_event list" where
  "spec_start_condition clk dio =
     [Gpio_Put clk True, Sleep_Us 10, Gpio_Put dio True, Sleep_Us 10,
      Gpio_Put dio False, Sleep_Us 10, Gpio_Put clk False, Sleep_Us 10]"

definition spec_stop_condition :: "uint8_t \<Rightarrow> uint8_t \<Rightarrow> gpio_event list" where
  "spec_stop_condition clk dio =
     [Gpio_Put clk False, Sleep_Us 10, Gpio_Put dio False, Sleep_Us 10,
      Gpio_Put clk True, Sleep_Us 10, Gpio_Put dio True]"

definition spec_write_byte :: "uint8_t \<Rightarrow> uint8_t \<Rightarrow> uint8_t \<Rightarrow> gpio_event list" where
  "spec_write_byte clk dio b =
     concat (map (\<lambda>i. [Gpio_Put dio (bit b i), Sleep_Us 10,
                       Gpio_Put clk True, Sleep_Us 10,
                       Gpio_Put clk False, Sleep_Us 10]) [0..<8])
     @ [Gpio_Put clk False, Sleep_Us 10, Gpio_Put clk True, Sleep_Us 10,
        Gpio_Put clk False, Sleep_Us 10]"

definition spec_command :: "uint8_t \<Rightarrow> uint8_t \<Rightarrow> uint8_t \<Rightarrow> gpio_event list" where
  "spec_command clk dio b =
     spec_start_condition clk dio @ spec_write_byte clk dio b @ spec_stop_condition clk dio"

text \<open>The three patterns the specification names, by their place in the table.\<close>

definition spec_blank :: uint8_t where "spec_blank = SEGMENTS ! 36"
definition spec_dash :: uint8_t where "spec_dash = SEGMENTS ! 37"
definition spec_star :: uint8_t where "spec_star = SEGMENTS ! 38"

text \<open>
  The string encoder in the specification's words.  The characters other than the dot are the
  ones that take a slot.  In the second pass a dot sets the indicator bit of the segment
  emitted before it, a leading dot with nothing before it is dropped, and any other character
  is encoded and appended; the result is filled with blanks up to six entries.
\<close>

definition leading_dot :: "string \<Rightarrow> bool" where
  "leading_dot str = (str \<noteq> [] \<and> hd str = CHR ''.'')"

definition non_dots :: "string \<Rightarrow> string" where
  "non_dots str = filter (\<lambda>c. c \<noteq> CHR ''.'') str"

definition spec_emit :: "Segments \<Rightarrow> char \<Rightarrow> Segments" where
  "spec_emit emitted c =
     (if c = CHR ''.'' then
        (if emitted \<noteq> [] then butlast emitted @ [last emitted OR 0x80] else emitted)
      else emitted @ [encode_char c])"

definition spec_encode_string :: "string \<Rightarrow> Segments" where
  "spec_encode_string str =
     (let emitted = foldl spec_emit [] str
      in emitted @ replicate (6 - length emitted) spec_blank)"

text \<open>
  The same content slot by slot: each character other than a dot, paired with whether a dot
  comes directly after it, and the byte of such a slot.
\<close>

fun spec_dotted :: "string \<Rightarrow> (char \<times> bool) list" where
  "spec_dotted [] = []"
| "spec_dotted (c # cs) =
     (if c = CHR ''.'' then spec_dotted cs else (c, leading_dot cs) # spec_dotted cs)"

definition spec_slot :: "char \<times> bool \<Rightarrow> uint8_t" where
  "spec_slot p = (if snd p then encode_char (fst p) OR 0x80 else encode_char (fst p))"

text \<open>
  The character encoder in the specification's words: the ranges in their priority order, a
  letter or a digit taking the pattern of its place in its range.
\<close>

definition spec_digit_pattern :: "nat \<Rightarrow> uint8_t" where
  "spec_digit_pattern k = SEGMENTS ! k"

definition spec_letter_pattern :: "nat \<Rightarrow> uint8_t" where
  "spec_letter_pattern k = SEGMENTS ! (10 + k)"

fun position :: "char \<Rightarrow> string \<Rightarrow> nat" where
  "position c [] = 0"
| "position c (x # xs) = (if c = x then 0 else Suc (position c xs))"

definition spec_encode_char :: "char \<Rightarrow> uint8_t" where
  "spec_encode_char ch =
     (if ch = CHR '' '' then spec_blank
      else if ch = CHR ''*'' then spec_star
      else if ch = CHR ''-'' then spec_dash
      else if ch \<in> set ''ABCDEFGHIJKLMNOPQRSTUVWXYZ''
        then spec_letter_pattern (position ch ''ABCDEFGHIJKLMNOPQRSTUVWXYZ'')
      else if ch \<in> set ''abcdefghijklmnopqrstuvwxyz''
        then spec_letter_pattern (position ch ''abcdefghijklmnopqrstuvwxyz'')
      else if ch \<in> set ''0123456789''
        then spec_digit_pattern (position ch ''0123456789'')
      else spec_star)"

section \<open>The primitives on the wire\<close>

declare write_loop.simps [simp del]
declare pad_loop.simps [simp del]
declare number_text.simps [simp del]

lemma drop_bit_and_1: "(drop_bit i (b :: uint8_t) AND 1 \<noteq> 0) = bit b i"
  by (simp add: bit_iff_and_drop_bit_eq_1 and_one_eq)

lemma start_wire: "start s = s\<lparr>wire := wire s @ spec_start_condition (m_clk s) (m_dio s)\<rparr>"
  by (simp add: start_def block_def gpio_put_def sleep_us_def spec_start_condition_def TM1637_DELAY_def)

lemma stop_wire: "stop s = s\<lparr>wire := wire s @ spec_stop_condition (m_clk s) (m_dio s)\<rparr>"
  by (simp add: stop_def block_def gpio_put_def sleep_us_def spec_stop_condition_def TM1637_DELAY_def)

lemma write_bit_wire:
  "write_bit b i s = s\<lparr>wire := wire s @ [Gpio_Put (m_dio s) (bit b i), Sleep_Us 10,
                       Gpio_Put (m_clk s) True, Sleep_Us 10,
                       Gpio_Put (m_clk s) False, Sleep_Us 10]\<rparr>"
  by (simp add: write_bit_def block_def gpio_put_def sleep_us_def TM1637_DELAY_def drop_bit_and_1)

lemma upt8: "[0..<8] = [0,1,2,3,4,5,6,7]"
  by (simp add: upt_rec)

lemma write_byte_wire:
  "write_byte b s = s\<lparr>wire := wire s @ spec_write_byte (m_clk s) (m_dio s) b\<rparr>"
  by (simp add: write_byte_def block_def write_bit_wire gpio_put_def sleep_us_def
      TM1637_DELAY_def spec_write_byte_def upt8)

lemma write_data_cmd_wire:
  "write_data_cmd s = s\<lparr>wire := wire s @ spec_command (m_clk s) (m_dio s) 0x40\<rparr>"
  by (simp add: write_data_cmd_def block_def start_wire stop_wire write_byte_wire
      spec_command_def TM1637_CMD1_def)

lemma write_dsp_ctrl_wire:
  "write_dsp_ctrl s =
     s\<lparr>wire := wire s @ spec_command (m_clk s) (m_dio s) (0x80 OR 0x08 OR m_brightness s)\<rparr>"
  by (simp add: write_dsp_ctrl_def block_def start_wire stop_wire write_byte_wire
      spec_command_def TM1637_CMD3_def TM1637_DSP_ON_def)

text \<open>The signal of a byte determines the byte.\<close>

lemma spec_write_byte_inj:
  assumes "spec_write_byte clk dio b = spec_write_byte clk dio b'"
  shows "b = b'"
proof (rule bit_word_eqI)
  fix n
  assume "n < LENGTH(8)"
  then have "n \<in> {0, 1, 2, 3, 4, 5, 6, 7}"
    by auto
  with assms show "bit b n \<longleftrightarrow> bit b' n"
    by (auto simp add: spec_write_byte_def upt8)
qed

section \<open>The loop of write\<close>

text \<open>
  Below 768 the 8-bit cut of \<open>i div 3\<close> loses nothing and the index stays inside the group of
  three that holds \<open>i\<close>.
\<close>

lemma group_index_split:
  fixes i :: nat
  shows "(i div 3) * 6 + 2 - i = 3 * (i div 3) + (2 - i mod 3)"
    and "i \<le> (i div 3) * 6 + 2"
proof -
  define a b where "a = i div 3" and "b = i mod 3"
  have i: "i = 3 * a + b"
    by (simp add: a_def b_def)
  have b: "b < 3"
    by (simp add: b_def)
  show "(i div 3) * 6 + 2 - i = 3 * (i div 3) + (2 - i mod 3)"
    unfolding a_def [symmetric] b_def [symmetric] using b by (simp add: i)
  show "i \<le> (i div 3) * 6 + 2"
    unfolding a_def [symmetric] using b by (simp add: i)
qed

lemma group_index_less:
  fixes i n :: nat
  assumes "i < n" "n mod 3 = 0"
  shows "(i div 3) * 6 + 2 - i < n"
proof -
  have "n = 3 * (n div 3) + n mod 3"
    by simp
  with assms(2) have n: "n = 3 * (n div 3)"
    by simp
  with assms(1) have "i < (n div 3) * 3"
    by simp
  then have "i div 3 < n div 3"
    by (rule less_mult_imp_div_less)
  then have "3 * (i div 3) + 2 < 3 * (n div 3)"
    by simp
  then show ?thesis
    by (subst n) (simp add: group_index_split(1))
qed

lemma group_index_within:
  fixes i n :: nat
  assumes "i < 3 * (n div 3)"
  shows "(i div 3) * 6 + 2 - i < 3 * (n div 3)"
proof -
  from assms have "i < (n div 3) * 3"
    by simp
  then have "i div 3 < n div 3"
    by (rule less_mult_imp_div_less)
  then have "3 * (i div 3) + 2 < 3 * (n div 3)"
    by simp
  then show ?thesis
    by (simp add: group_index_split(1))
qed

lemma group_floor_le: "3 * (n div 3) \<le> (n :: nat)"
  by simp

lemma group_index_beyond:
  fixes n :: nat
  assumes "n mod 3 \<noteq> 0"
  shows "3 * (n div 3) < n"
    and "\<not> ((3 * (n div 3)) div 3) * 6 + 2 - 3 * (n div 3) < n"
proof -
  define q r where "q = n div 3" and "r = n mod 3"
  have n: "n = 3 * q + r"
    by (simp add: q_def r_def)
  have r: "r < 3" "r \<noteq> 0"
    using assms by (simp_all add: r_def)
  show "3 * (n div 3) < n"
    unfolding q_def [symmetric] using r by (simp add: n)
  show "\<not> ((3 * (n div 3)) div 3) * 6 + 2 - 3 * (n div 3) < n"
    unfolding q_def [symmetric] using r by (simp add: n)
qed

lemma write_index_small:
  assumes "i < 768"
  shows "unat (write_index (of_nat i)) = (i div 3) * 6 + 2 - i"
proof -
  have i32: "unat (of_nat i :: size_t) = i"
    using assms by (simp add: unat_of_nat)
  have q: "unat ((of_nat i :: size_t) div 3) = i div 3"
    by (simp add: unat_div i32)
  have q8: "unat (ucast ((of_nat i :: size_t) div 3) :: uint8_t) = i div 3"
    using assms by (simp add: unsigned_ucast_eq q take_bit_eq_mod)
  have u8: "uint (ucast ((of_nat i :: size_t) div 3) :: uint8_t) = int (i div 3)"
    by (simp flip: q8)
  define k where "k = (i div 3) * 6 + 2 - i"
  have le: "i \<le> (i div 3) * 6 + 2"
    by (rule group_index_split(2))
  have klt: "k < 2 ^ 32"
    using assms by (simp add: k_def)
  have "write_index (of_nat i) = of_nat ((i div 3) * 6 + 2) - of_nat i"
    by (simp add: write_index_def u8)
  also have "\<dots> = of_nat k"
    unfolding k_def using le by (rule of_nat_diff [symmetric])
  finally have "unat (write_index (of_nat i)) = unat (of_nat k :: size_t)"
    by (rule arg_cong)
  also have "\<dots> = k"
    using klt by (simp add: unat_of_nat)
  finally show ?thesis
    by (simp only: k_def)
qed

lemma write_index_0: "unat (write_index (of_nat 0)) = 2"
  by (simp add: write_index_def)

lemma write_loop_ok:
  assumes "length segs mod 3 = 0" "length segs \<le> 768" "i \<le> length segs"
  shows "write_loop segs i s =
           (Inr (), s\<lparr>wire := wire s @
              concat (map (\<lambda>k. spec_write_byte (m_clk s) (m_dio s) (segs ! ((k div 3) * 6 + 2 - k)))
                          [i..<length segs])\<rparr>)"
  using assms
proof (induction "length segs - i" arbitrary: i s)
  case 0
  then show ?case
    by (simp add: write_loop.simps)
next
  case (Suc d)
  then have lt: "i < length segs" and small: "i < 768"
    by simp_all
  have idx: "unat (write_index (of_nat i)) = (i div 3) * 6 + 2 - i"
    using small by (rule write_index_small)
  have inr: "(i div 3) * 6 + 2 - i < length segs"
    using lt Suc.prems(1) by (rule group_index_less)
  have d: "d = length segs - Suc i"
    using Suc.hyps(2) by simp
  have step: "write_loop segs i s =
      write_loop segs (Suc i) (write_byte (segs ! ((i div 3) * 6 + 2 - i)) s)"
    using lt inr by (subst write_loop.simps) (simp add: idx)
  have "write_loop segs (Suc i) (write_byte (segs ! ((i div 3) * 6 + 2 - i)) s) =
      (Inr (), (write_byte (segs ! ((i div 3) * 6 + 2 - i)) s)
         \<lparr>wire := wire (write_byte (segs ! ((i div 3) * 6 + 2 - i)) s) @
            concat (map (\<lambda>k. spec_write_byte (m_clk (write_byte (segs ! ((i div 3) * 6 + 2 - i)) s))
                              (m_dio (write_byte (segs ! ((i div 3) * 6 + 2 - i)) s))
                              (segs ! ((k div 3) * 6 + 2 - k)))
                        [Suc i..<length segs])\<rparr>)"
    using lt by (intro Suc.hyps(1) d Suc.prems(1) Suc.prems(2)) simp
  then show ?case
    using lt by (simp add: step write_byte_wire upt_conv_Cons)
qed

lemma write_loop_raises:
  assumes "length segs mod 3 \<noteq> 0" "length segs < 768" "i \<le> 3 * (length segs div 3)"
  shows "write_loop segs i s =
           (Inl Out_Of_Range, s\<lparr>wire := wire s @
              concat (map (\<lambda>k. spec_write_byte (m_clk s) (m_dio s) (segs ! ((k div 3) * 6 + 2 - k)))
                          [i..<3 * (length segs div 3)])\<rparr>)"
  using assms
proof (induction "3 * (length segs div 3) - i" arbitrary: i s)
  case 0
  then have i: "i = 3 * (length segs div 3)"
    by simp
  have lt: "i < length segs"
    unfolding i using "0.prems"(1) by (rule group_index_beyond(1))
  have idx: "unat (write_index (of_nat i)) = (i div 3) * 6 + 2 - i"
    using lt "0.prems"(2) by (intro write_index_small) simp
  have bad: "\<not> (i div 3) * 6 + 2 - i < length segs"
    unfolding i using "0.prems"(1) by (rule group_index_beyond(2))
  have empty: "[i..<3 * (length segs div 3)] = []"
    by (simp add: i)
  show ?case
    using lt bad by (subst write_loop.simps) (simp add: idx empty)
next
  case (Suc d)
  then have below: "i < 3 * (length segs div 3)"
    by simp
  then have lt: "i < length segs"
    using group_floor_le [of "length segs"] by simp
  have idx: "unat (write_index (of_nat i)) = (i div 3) * 6 + 2 - i"
    using lt Suc.prems(2) by (intro write_index_small) simp
  have inr: "(i div 3) * 6 + 2 - i < length segs"
    using group_index_within [OF below] group_floor_le [of "length segs"] by simp
  let ?s = "write_byte (segs ! ((i div 3) * 6 + 2 - i)) s"
  have step: "write_loop segs i s = write_loop segs (Suc i) ?s"
    using lt inr by (subst write_loop.simps) (simp add: idx)
  have "write_loop segs (Suc i) ?s =
      (Inl Out_Of_Range, ?s
         \<lparr>wire := wire ?s @
            concat (map (\<lambda>k. spec_write_byte (m_clk ?s) (m_dio ?s) (segs ! ((k div 3) * 6 + 2 - k)))
                        [Suc i..<3 * (length segs div 3)])\<rparr>)"
    using below Suc.hyps(2) by (intro Suc.hyps(1) Suc.prems(1) Suc.prems(2)) simp_all
  then show ?case
    using below by (simp add: step write_byte_wire upt_conv_Cons)
qed

section \<open>The string encoder\<close>

lemma count_loop_eq: "count_loop str d = d + length (non_dots str)"
  by (induction str arbitrary: d) (simp_all add: non_dots_def)

lemma encode_char_blank: "encode_char CHR '' '' = 0"
  by (simp add: encode_char_def SEGMENTS_def)

lemma pad_loop_eq: "pad_loop segs = segs @ replicate (6 - length segs) 0"
proof (induction segs rule: pad_loop.induct)
  case (1 segs)
  show ?case
  proof (cases "length segs < 6")
    case True
    then have "6 - length segs = Suc (6 - Suc (length segs))"
      by simp
    with True 1 show ?thesis
      by (subst pad_loop.simps) (simp add: encode_char_blank)
  next
    case False
    then show ?thesis
      by (subst pad_loop.simps) simp
  qed
qed

lemma length_spec_emit:
  "length (spec_emit acc c) = (if c = CHR ''.'' then length acc else Suc (length acc))"
  by (simp add: spec_emit_def)

lemma spec_emit_dot_empty: "spec_emit [] CHR ''.'' = []"
  by (simp add: spec_emit_def)

lemma spec_emit_dot:
  "acc \<noteq> [] \<Longrightarrow> spec_emit acc CHR ''.'' = butlast acc @ [last acc OR 0x80]"
  by (simp add: spec_emit_def)

lemma spec_emit_char: "c \<noteq> CHR ''.'' \<Longrightarrow> spec_emit acc c = acc @ [encode_char c]"
  by (simp add: spec_emit_def)

lemma length_foldl_spec_emit:
  "length (foldl spec_emit acc cs) = length acc + length (non_dots cs)"
  by (induction cs arbitrary: acc) (simp_all add: non_dots_def length_spec_emit)

lemma update_last_append:
  assumes "acc \<noteq> []"
  shows "(acc @ zs)[length acc - Suc 0 := v] = (butlast acc @ [v]) @ zs"
  using assms by (induction acc rule: rev_induct) (simp_all add: list_update_append)

lemma nth_last_append:
  assumes "acc \<noteq> []"
  shows "(acc @ zs) ! (length acc - Suc 0) = last acc"
  using assms by (induction acc rule: rev_induct) (simp_all add: nth_append)

lemma encode_loop_emits:
  assumes "acc \<noteq> [] \<or> cs = [] \<or> hd cs \<noteq> CHR ''.''"
    and "length (non_dots cs) \<le> length zs"
  shows "encode_loop cs (acc @ zs) (length acc) =
           Inr (foldl spec_emit acc cs @ drop (length (non_dots cs)) zs)"
  using assms
proof (induction cs arbitrary: acc zs)
  case Nil
  then show ?case by (simp add: non_dots_def)
next
  case (Cons c cs)
  show ?case
  proof (cases "c = CHR ''.''")
    case True
    with Cons.prems have ne: "acc \<noteq> []"
      by simp
    let ?acc = "butlast acc @ [last acc OR 0x80]"
    have len: "length ?acc = length acc"
      using ne by simp
    have "encode_loop cs (?acc @ zs) (length ?acc) =
            Inr (foldl spec_emit ?acc cs @ drop (length (non_dots cs)) zs)"
      using Cons.prems(2) True by (intro Cons.IH) (simp_all add: non_dots_def)
    then have "encode_loop cs (?acc @ zs) (length acc) =
            Inr (foldl spec_emit ?acc cs @ drop (length (non_dots cs)) zs)"
      by (simp only: len)
    moreover have "spec_emit acc c = ?acc"
      using True ne by (simp add: spec_emit_def)
    moreover have "length (non_dots (c # cs)) = length (non_dots cs)"
      using True by (simp add: non_dots_def)
    moreover have pos: "0 < length acc"
      using ne by simp
    moreover have "length acc - Suc 0 < length (acc @ zs)"
      using pos by (simp add: less_imp_diff_less trans_less_add1)
    ultimately show ?thesis
      using True
      by (simp add: update_last_append nth_last_append TM1637_MSB_def
          del: append_assoc length_append)
  next
    case False
    with Cons.prems(2) obtain z zs' where zs: "zs = z # zs'"
      by (cases zs) (simp_all add: non_dots_def)
    let ?acc = "acc @ [encode_char c]"
    have "encode_loop cs (?acc @ zs') (length ?acc) =
            Inr (foldl spec_emit ?acc cs @ drop (length (non_dots cs)) zs')"
      using Cons.prems(2) False zs by (intro Cons.IH) (simp_all add: non_dots_def)
    moreover have "spec_emit acc c = ?acc"
      using False by (simp add: spec_emit_def)
    moreover have "length (non_dots (c # cs)) = Suc (length (non_dots cs))"
      using False by (simp add: non_dots_def)
    ultimately show ?thesis
      using False zs by simp
  qed
qed

lemma encode_string_refines:
  assumes "str = [] \<or> hd str \<noteq> CHR ''.''"
  shows "encode_string str = Inr (spec_encode_string str)"
proof -
  have "encode_loop str ([] @ replicate (length (non_dots str)) 0) (length ([] :: Segments)) =
          Inr (foldl spec_emit [] str @ drop (length (non_dots str)) (replicate (length (non_dots str)) 0))"
    using assms by (intro encode_loop_emits) simp_all
  then show ?thesis
    by (simp add: encode_string_def count_loop_eq pad_loop_eq spec_encode_string_def spec_blank_def SEGMENTS_def
        Let_def)
qed

lemma SEGMENTS_msb_clear: "k < 39 \<Longrightarrow> SEGMENTS ! k AND 0x7F = SEGMENTS ! k"
proof -
  have "\<forall>x \<in> set SEGMENTS. x AND 0x7F = x"
    by (simp add: SEGMENTS_def)
  moreover assume "k < 39"
  then have "SEGMENTS ! k \<in> set SEGMENTS"
    by (intro nth_mem) (simp add: SEGMENTS_def)
  ultimately show ?thesis
    by blast
qed

lemma encode_char_msb_clear: "encode_char c AND 0x7F = encode_char c"
  unfolding encode_char_def Let_def by (auto intro!: SEGMENTS_msb_clear)

lemma or_msb_low_bits: "(x OR 0x80) AND 0x7F = x AND (0x7F :: uint8_t)"
  by (simp add: bit.conj_disj_distrib2)

lemma or_msb_bit: "bit (x OR (0x80 :: uint8_t)) 7"
  by (simp add: bit_or_iff)

lemma spec_emit_snoc: "foldl spec_emit acc (cs @ [c]) = spec_emit (foldl spec_emit acc cs) c"
  by simp

lemma low_bits_spec_emit:
  "map (\<lambda>b. b AND 0x7F) (foldl spec_emit [] str) = map encode_char (non_dots str)"
proof (induction str rule: rev_induct)
  case Nil
  show ?case by (simp add: non_dots_def)
next
  case (snoc c str)
  let ?m = "foldl spec_emit [] str"
  show ?case
  proof (cases "c = CHR ''.''")
    case True
    have "map (\<lambda>b. b AND 0x7F) (spec_emit ?m c) = map (\<lambda>b. b AND 0x7F) ?m"
    proof (cases "?m = []")
      case True
      then show ?thesis
        using \<open>c = CHR ''.''\<close> by (simp add: spec_emit_def)
    next
      case False
      then have "?m = butlast ?m @ [last ?m]"
        by simp
      then have "map (\<lambda>b. b AND 0x7F) ?m =
                 map (\<lambda>b. b AND 0x7F) (butlast ?m) @ [last ?m AND 0x7F]"
        by (metis (no_types, lifting) list.simps(8,9) map_append)
      then show ?thesis
        using False \<open>c = CHR ''.''\<close> by (simp add: spec_emit_def or_msb_low_bits)
    qed
    then show ?thesis
      using True snoc.IH by (simp add: non_dots_def)
  next
    case False
    then show ?thesis
      using snoc.IH by (simp add: spec_emit_def non_dots_def encode_char_msb_clear)
  qed
qed

lemma spec_emit_no_dots:
  assumes "CHR ''.'' \<notin> set str"
  shows "foldl spec_emit [] str = map encode_char str"
  using assms by (induction str rule: rev_induct) (auto simp add: spec_emit_def)

lemma spec_emit_keeps_msb:
  assumes "k < length acc" and "bit (acc ! k) 7"
  shows "bit (foldl spec_emit acc cs ! k) 7"
  using assms
proof (induction cs arbitrary: acc)
  case Nil
  then show ?case by simp
next
  case (Cons c cs)
  have "k < length (spec_emit acc c) \<and> bit (spec_emit acc c ! k) 7"
  proof (cases "c = CHR ''.''")
    case True
    from Cons.prems have ne: "acc \<noteq> []"
      by auto
    show ?thesis
    proof (cases "k = length acc - 1")
      case True
      then show ?thesis
        using ne \<open>c = CHR ''.''\<close> Cons.prems
        by (simp add: spec_emit_def nth_append or_msb_bit)
    next
      case False
      then have "k < length (butlast acc)"
        using Cons.prems(1) by simp
      then show ?thesis
        using ne \<open>c = CHR ''.''\<close> Cons.prems
        by (simp add: spec_emit_def nth_append nth_butlast)
    qed
  next
    case False
    then show ?thesis
      using Cons.prems by (simp add: spec_emit_def nth_append)
  qed
  then show ?case
    using Cons.IH [of "spec_emit acc c"] by simp
qed

lemma non_dots_prefix_nonempty:
  assumes "str = [] \<or> hd str \<noteq> CHR ''.''" and "i < length str" and "str ! i = CHR ''.''"
  shows "non_dots (take i str) \<noteq> []"
proof -
  from assms obtain c cs where str: "str = c # cs" and c: "c \<noteq> CHR ''.''"
    by (cases str) auto
  with assms have "i \<noteq> 0"
    by (cases i) auto
  then obtain i' where "i = Suc i'"
    by (cases i) auto
  then show ?thesis
    using str c by (simp add: non_dots_def)
qed

lemma dot_sets_msb:
  assumes "str = [] \<or> hd str \<noteq> CHR ''.''" and "i < length str" and "str ! i = CHR ''.''"
  shows "bit (foldl spec_emit [] str ! (length (non_dots (take i str)) - 1)) 7"
proof -
  let ?m = "foldl spec_emit [] (take i str)"
  have ne: "?m \<noteq> []"
    using non_dots_prefix_nonempty [OF assms] length_foldl_spec_emit [of "[]" "take i str"]
    by auto
  have len: "length ?m = length (non_dots (take i str))"
    by (simp add: length_foldl_spec_emit)
  have split: "str = take i str @ CHR ''.'' # drop (Suc i) str"
    using assms(2,3) by (metis id_take_nth_drop)
  have "foldl spec_emit [] str =
          foldl spec_emit (spec_emit ?m CHR ''.'') (drop (Suc i) str)"
    by (subst split) simp
  moreover have "spec_emit ?m CHR ''.'' = butlast ?m @ [last ?m OR 0x80]"
    using ne by (simp add: spec_emit_def)
  moreover have "bit ((butlast ?m @ [last ?m OR 0x80]) ! (length ?m - 1)) 7"
    using ne by (simp add: nth_append or_msb_bit)
  moreover have "length ?m - 1 < length (butlast ?m @ [last ?m OR 0x80])"
    using ne by simp
  ultimately show ?thesis
    using spec_emit_keeps_msb [of "length ?m - 1" "butlast ?m @ [last ?m OR 0x80]" "drop (Suc i) str"]
    by (simp only: len)
qed

lemma encode_char_no_msb: "\<not> bit (encode_char c) 7"
proof
  assume "bit (encode_char c) 7"
  then have "bit (encode_char c AND 0x7F) 7"
    by (simp only: encode_char_msb_clear)
  then show False
    by (simp add: bit_and_iff)
qed

lemma msb_comes_from_dot:
  assumes "k < length (foldl spec_emit [] str)" and "bit (foldl spec_emit [] str ! k) 7"
  shows "\<exists>i<length str. str ! i = CHR ''.'' \<and> length (non_dots (take i str)) = Suc k"
  using assms
proof (induction str arbitrary: k rule: rev_induct)
  case Nil
  then show ?case by simp
next
  case (snoc c str)
  let ?m = "foldl spec_emit [] str"
  have len: "length ?m = length (non_dots str)"
    by (simp add: length_foldl_spec_emit)
  have older: "\<exists>i<length (str @ [c]). (str @ [c]) ! i = CHR ''.''
                 \<and> length (non_dots (take i (str @ [c]))) = Suc k"
    if "k < length ?m" "bit (?m ! k) 7"
  proof -
    from snoc.IH [OF that] obtain i
      where "i < length str" "str ! i = CHR ''.''" "length (non_dots (take i str)) = Suc k"
      by blast
    then show ?thesis
      by (intro exI [of _ i]) (simp add: nth_append)
  qed
  show ?case
  proof (cases "c = CHR ''.''")
    case True
    show ?thesis
    proof (cases "?m = []")
      case True
      with \<open>c = CHR ''.''\<close> snoc.prems show ?thesis
        by (simp add: spec_emit_dot_empty)
    next
      case False
      then have emit: "spec_emit ?m c = butlast ?m @ [last ?m OR 0x80]"
        using \<open>c = CHR ''.''\<close> by (simp add: spec_emit_dot)
      show ?thesis
      proof (cases "k < length ?m - 1")
        case True
        then have "k < length ?m" "bit (?m ! k) 7"
          using snoc.prems by (simp_all add: emit nth_append nth_butlast)
        then show ?thesis
          by (rule older)
      next
        case False
        with snoc.prems(1) \<open>?m \<noteq> []\<close> have "Suc k = length ?m"
          by (simp add: emit)
        then show ?thesis
          using \<open>c = CHR ''.''\<close> by (intro exI [of _ "length str"]) (simp add: len)
      qed
    qed
  next
    case False
    then have emit: "spec_emit ?m c = ?m @ [encode_char c]"
      by (simp add: spec_emit_char)
    show ?thesis
    proof (cases "k < length ?m")
      case True
      then have "bit (?m ! k) 7"
        using snoc.prems(2) by (simp add: emit nth_append)
      with True show ?thesis
        by (rule older)
    next
      case False
      with snoc.prems(1) have "k = length ?m"
        by (simp add: emit)
      with snoc.prems(2) show ?thesis
        by (simp add: emit encode_char_no_msb)
    qed
  qed
qed

text \<open>The emitted segments, slot by slot.\<close>

lemma or_msb_twice: "(x OR 0x80) OR 0x80 = (x OR 0x80 :: uint8_t)"
  by (simp add: or.assoc)

lemma spec_dotted_chars: "map fst (spec_dotted str) = non_dots str"
  by (induction str) (simp_all add: non_dots_def)

lemma spec_emit_after:
  assumes "acc \<noteq> []"
  shows "foldl spec_emit acc cs =
           butlast acc @ [if leading_dot cs then last acc OR 0x80 else last acc]
           @ map spec_slot (spec_dotted cs)"
  using assms
proof (induction cs arbitrary: acc)
  case Nil
  then show ?case
    by (simp add: leading_dot_def)
next
  case (Cons c cs)
  show ?case
  proof (cases "c = CHR ''.''")
    case True
    let ?acc = "butlast acc @ [last acc OR 0x80]"
    have "foldl spec_emit ?acc cs =
            butlast ?acc @ [if leading_dot cs then last ?acc OR 0x80 else last ?acc]
            @ map spec_slot (spec_dotted cs)"
      by (rule Cons.IH) simp
    then have "foldl spec_emit ?acc cs = ?acc @ map spec_slot (spec_dotted cs)"
      by (simp add: or_msb_twice)
    moreover have "spec_emit acc c = ?acc"
      using True Cons.prems by (simp add: spec_emit_dot)
    ultimately show ?thesis
      using True by (simp add: leading_dot_def)
  next
    case False
    let ?acc = "acc @ [encode_char c]"
    have "foldl spec_emit ?acc cs =
            butlast ?acc @ [if leading_dot cs then last ?acc OR 0x80 else last ?acc]
            @ map spec_slot (spec_dotted cs)"
      by (rule Cons.IH) simp
    then have "foldl spec_emit ?acc cs =
            acc @ spec_slot (c, leading_dot cs) # map spec_slot (spec_dotted cs)"
      by (simp add: spec_slot_def)
    moreover have "spec_emit acc c = ?acc"
      using False by (simp add: spec_emit_char)
    moreover have "butlast acc @ [last acc] = acc"
      using Cons.prems by simp
    ultimately show ?thesis
      using False by (simp add: leading_dot_def del: append_butlast_last_id)
  qed
qed

lemma spec_emit_slots: "foldl spec_emit [] str = map spec_slot (spec_dotted str)"
proof (induction str)
  case Nil
  show ?case by simp
next
  case (Cons c cs)
  show ?case
  proof (cases "c = CHR ''.''")
    case True
    then show ?thesis
      using Cons.IH by (simp add: spec_emit_dot_empty)
  next
    case False
    have "foldl spec_emit [encode_char c] cs =
            butlast [encode_char c]
            @ [if leading_dot cs then last [encode_char c] OR 0x80 else last [encode_char c]]
            @ map spec_slot (spec_dotted cs)"
      by (rule spec_emit_after) simp
    then have "foldl spec_emit [encode_char c] cs =
            spec_slot (c, leading_dot cs) # map spec_slot (spec_dotted cs)"
      by (simp add: spec_slot_def)
    moreover have "spec_emit [] c = [encode_char c]"
      using False by (simp add: spec_emit_char)
    ultimately show ?thesis
      using False by simp
  qed
qed

section \<open>The character encoder\<close>

lemma encode_char_refines: "encode_char ch = spec_encode_char ch"
proof (cases ch)
  case (Char b0 b1 b2 b3 b4 b5 b6 b7)
  show ?thesis
    unfolding Char
    by (cases b0; cases b1; cases b2; cases b3; cases b4; cases b5; cases b6; cases b7;
        simp add: encode_char_def spec_encode_char_def spec_blank_def spec_star_def
          spec_dash_def spec_letter_pattern_def spec_digit_pattern_def SEGMENTS_def)
qed

section \<open>The number display below one million\<close>

text \<open>
  A value below 1000000 has at most six decimal digits, none of them a dot: the text is six
  characters wide, the encoder returns six segments and the loop of \<^verbatim>\<open>write\<close> stays in range.
\<close>

lemma digit_char_decimal:
  assumes "k < 10"
  shows "digit_char k \<in> set ''0123456789''"
proof -
  from assms have "k \<in> {0, 1, 2, 3, 4, 5, 6, 7, 8, 9}"
    by auto
  then show ?thesis
    by (auto simp add: digit_char_def)
qed

lemma number_text_decimal: "set (number_text 10 n) \<subseteq> set ''0123456789''"
proof (induction "10 :: nat" n rule: number_text.induct)
  case (1 n)
  show ?case
  proof (cases "n < 10")
    case True
    then show ?thesis
      using digit_char_decimal [of n] by (subst number_text.simps) simp
  next
    case False
    then have "set (number_text 10 (n div 10)) \<subseteq> set ''0123456789''"
      by (intro 1) simp
    moreover have "digit_char (n mod 10) \<in> set ''0123456789''"
      by (intro digit_char_decimal) simp
    ultimately show ?thesis
      using False by (subst number_text.simps) simp
  qed
qed

lemma number_text_length:
  assumes "n < 10 ^ k" and "0 < k"
  shows "length (number_text 10 n) \<le> k"
  using assms
proof (induction k arbitrary: n)
  case 0
  then show ?case by simp
next
  case (Suc k)
  show ?case
  proof (cases "n < 10")
    case True
    then show ?thesis
      by (subst number_text.simps) simp
  next
    case False
    with Suc.prems have k: "0 < k"
      by (cases k) simp_all
    from Suc.prems have "n div 10 < 10 ^ k"
      by (simp add: less_mult_imp_div_less mult.commute)
    then have "length (number_text 10 (n div 10)) \<le> k"
      using k by (rule Suc.IH)
    then show ?thesis
      using False by (subst number_text.simps) simp
  qed
qed

lemma setw_length:
  assumes "length txt \<le> w"
  shows "length (setw w txt) = w"
  using assms by (simp add: setw_def)

lemma decimal_no_dot: "CHR ''.'' \<notin> set ''0123456789''"
  by simp

lemma setw_no_dot:
  assumes "CHR ''.'' \<notin> set txt"
  shows "CHR ''.'' \<notin> set (setw w txt)"
  using assms by (simp add: setw_def)

lemma number_text_no_dot: "CHR ''.'' \<notin> set (number_text 10 n)"
  using number_text_decimal [of n] decimal_no_dot by blast

lemma number_text_six:
  assumes "n < 1000000"
  shows "length (number_text 10 n) \<le> 6"
proof -
  have "n < 10 ^ 6"
    using assms by simp
  moreover have "(0 :: nat) < 6"
    by simp
  ultimately show ?thesis
    by (rule number_text_length)
qed

lemma number_six_segments:
  assumes "unat num < 1000000"
  shows "\<exists>segments. encode_string (setw 6 (number_text 10 (unat num))) = Inr segments
           \<and> length segments = 6"
proof -
  define t where "t = setw 6 (number_text 10 (unat num))"
  have len: "length t = 6"
    unfolding t_def using assms by (intro setw_length number_text_six)
  have nodots: "CHR ''.'' \<notin> set t"
    unfolding t_def by (intro setw_no_dot number_text_no_dot)
  then have "t = [] \<or> hd t \<noteq> CHR ''.''"
    by (cases t) auto
  then have "encode_string t = Inr (spec_encode_string t)"
    by (rule encode_string_refines)
  moreover have "length (spec_encode_string t) = 6"
    using nodots len by (simp add: spec_encode_string_def Let_def spec_emit_no_dots)
  ultimately show ?thesis
    unfolding t_def by blast
qed

lemma number_below_million:
  assumes "unat num < 1000000"
  shows "fst (number num s) = Inr ()"
proof -
  from number_six_segments [OF assms] obtain segments
    where enc: "encode_string (setw 6 (number_text 10 (unat num))) = Inr segments"
      and len: "length segments = 6"
    by blast
  let ?s = "write_byte (TM1637_CMD2 OR min 0 5) (start (write_data_cmd s))"
  from len have "length segments mod 3 = 0" "length segments \<le> 768" "0 \<le> length segments"
    by simp_all
  then have "write_loop segments 0 ?s =
      (Inr (), ?s\<lparr>wire := wire ?s @
         concat (map (\<lambda>k. spec_write_byte (m_clk ?s) (m_dio ?s) (segments ! ((k div 3) * 6 + 2 - k)))
                     [0..<length segments])\<rparr>)"
    by (rule write_loop_ok)
  then have "fst (write_segments segments 0 s) = Inr ()"
    by (simp add: write_segments_def)
  then show ?thesis
    by (simp add: number_def enc)
qed

section \<open>Properties of the driver\<close>

lemma upt_0_3: "[0..<3] = [0, 1, 2]"
  by (simp add: upt_rec)

lemma upt_0_6: "[0..<6] = [0, 1, 2, 3, 4, 5]"
  by (simp add: upt_rec)

lemma write_loop_short:
  assumes "length segs = 1 \<or> length segs = 2"
  shows "write_loop segs 0 s = (Inl Out_Of_Range, s)"
  using assms write_index_0 by (subst write_loop.simps) auto

lemma replicate_numeral_Cons: "replicate (numeral k) x = x # replicate (pred_numeral k) x"
  by (simp add: numeral_eq_Suc)

subsection \<open>Writing segments\<close>

text \<open>
  C1.  For every segment sequence of six entries and every position, \<^verbatim>\<open>write\<close> puts the segment
  bytes on the wire in the source-index order 2, 1, 0, 5, 4, 3: the \<open>i\<close>-th byte written, for
  \<open>i\<close> from 0 to 5, is the entry at index \<open>(i div 3) * 6 + 2 - i\<close>, which is the value of the
  index expression of the loop.
\<close>

theorem write_permutation:
  assumes "length segs = 6"
  shows "write_segments segs p s =
           (Inr (), s\<lparr>wire := wire s
              @ spec_command (m_clk s) (m_dio s) 0x40
              @ spec_start_condition (m_clk s) (m_dio s)
              @ spec_write_byte (m_clk s) (m_dio s) (0xC0 OR min p 5)
              @ concat (map (\<lambda>i. spec_write_byte (m_clk s) (m_dio s) (segs ! ((i div 3) * 6 + 2 - i)))
                            [0..<6])
              @ spec_stop_condition (m_clk s) (m_dio s)
              @ spec_command (m_clk s) (m_dio s) (0x80 OR 0x08 OR m_brightness s)\<rparr>)
         \<and> map (\<lambda>i. (i div 3) * 6 + 2 - i) [0..<6] = [2, 1, 0, 5, 4, 3]
         \<and> map (\<lambda>i. unat (write_index (of_nat i))) [0..<6] = [2, 1, 0, 5, 4, 3]"
proof (intro conjI)
  have "length segs mod 3 = 0" "length segs \<le> 768" "0 \<le> length segs"
    using assms by simp_all
  then have "write_loop segs 0 (write_byte (TM1637_CMD2 OR min p 5) (start (write_data_cmd s))) =
      (Inr (), (write_byte (TM1637_CMD2 OR min p 5) (start (write_data_cmd s)))
         \<lparr>wire := wire (write_byte (TM1637_CMD2 OR min p 5) (start (write_data_cmd s))) @
            concat (map (\<lambda>k. spec_write_byte
                                (m_clk (write_byte (TM1637_CMD2 OR min p 5) (start (write_data_cmd s))))
                                (m_dio (write_byte (TM1637_CMD2 OR min p 5) (start (write_data_cmd s))))
                                (segs ! ((k div 3) * 6 + 2 - k)))
                        [0..<length segs])\<rparr>)"
    by (rule write_loop_ok)
  then show "write_segments segs p s =
           (Inr (), s\<lparr>wire := wire s
              @ spec_command (m_clk s) (m_dio s) 0x40
              @ spec_start_condition (m_clk s) (m_dio s)
              @ spec_write_byte (m_clk s) (m_dio s) (0xC0 OR min p 5)
              @ concat (map (\<lambda>i. spec_write_byte (m_clk s) (m_dio s) (segs ! ((i div 3) * 6 + 2 - i)))
                            [0..<6])
              @ spec_stop_condition (m_clk s) (m_dio s)
              @ spec_command (m_clk s) (m_dio s) (0x80 OR 0x08 OR m_brightness s)\<rparr>)"
    unfolding assms
    by (simp add: write_segments_def write_data_cmd_wire start_wire write_byte_wire
        stop_wire write_dsp_ctrl_wire TM1637_CMD2_def del: upt_rec_numeral)
  show "map (\<lambda>i. (i div 3) * 6 + 2 - i) [0..<6] = [2, 1, 0, 5, 4, 3 :: nat]"
    by (simp add: upt_0_6)
  show "map (\<lambda>i. unat (write_index (of_nat i))) [0..<6] = [2, 1, 0, 5, 4, 3]"
    by (simp add: upt_0_6 write_index_def)
qed

theorem write_permutation_witness:
  "length [0x06, 0x5B, 0x4F, 0x66, 0x6D, 0x7D :: uint8_t] = 6
   \<and> write_segments [0x06, 0x5B, 0x4F, 0x66, 0x6D, 0x7D] 0
       \<lparr>m_clk = 0, m_dio = 1, m_brightness = 7, wire = []\<rparr> =
     (Inr (), \<lparr>m_clk = 0, m_dio = 1, m_brightness = 7, wire =
        spec_command 0 1 0x40
        @ spec_start_condition 0 1
        @ spec_write_byte 0 1 0xC0
        @ spec_write_byte 0 1 0x4F @ spec_write_byte 0 1 0x5B @ spec_write_byte 0 1 0x06
        @ spec_write_byte 0 1 0x7D @ spec_write_byte 0 1 0x6D @ spec_write_byte 0 1 0x66
        @ spec_stop_condition 0 1
        @ spec_command 0 1 0x8F\<rparr>)"
proof -
  have h: "length [0x06, 0x5B, 0x4F, 0x66, 0x6D, 0x7D :: uint8_t] = 6"
    by simp
  show ?thesis
    using write_permutation [OF h, of 0 "\<lparr>m_clk = 0, m_dio = 1, m_brightness = 7, wire = []\<rparr>"]
    by (simp add: upt_0_6)
qed

text \<open>
  C4.  As stated, for every segment sequence, the property fails: on a sequence of one entry the
  first access of the loop is to index 2, \<^verbatim>\<open>at\<close> raises, and neither the stop condition nor the
  Display-control command is sent.
\<close>

theorem write_transaction_counterexample:
  "write_segments [0x3F] 0 \<lparr>m_clk = 0, m_dio = 1, m_brightness = 7, wire = []\<rparr> =
     (Inl Out_Of_Range, \<lparr>m_clk = 0, m_dio = 1, m_brightness = 7, wire =
        spec_command 0 1 0x40 @ spec_start_condition 0 1 @ spec_write_byte 0 1 0xC0\<rparr>)"
  by (simp add: write_segments_def write_loop_short write_data_cmd_wire start_wire
      write_byte_wire TM1637_CMD2_def)

text \<open>
  C4, amended.  For every segment sequence whose length is a multiple of three and at most 768,
  and every position \<open>p\<close>, \<^verbatim>\<open>write\<close> produces exactly this wire transaction order: the Data
  command (start, byte \<open>0x40\<close>, stop), then start, the address byte \<open>0xC0 OR min p 5\<close>, the
  segment bytes of the sequence (each group of three in reverse), stop, and finally the
  Display-control command with the byte \<open>0x80 OR 0x08 OR brightness\<close>.
\<close>

theorem write_transaction:
  assumes "length segs mod 3 = 0" and "length segs \<le> 768"
  shows "write_segments segs p s =
           (Inr (), s\<lparr>wire := wire s
              @ spec_command (m_clk s) (m_dio s) 0x40
              @ spec_start_condition (m_clk s) (m_dio s)
              @ spec_write_byte (m_clk s) (m_dio s) (0xC0 OR min p 5)
              @ concat (map (\<lambda>k. spec_write_byte (m_clk s) (m_dio s) (segs ! ((k div 3) * 6 + 2 - k)))
                            [0..<length segs])
              @ spec_stop_condition (m_clk s) (m_dio s)
              @ spec_command (m_clk s) (m_dio s) (0x80 OR 0x08 OR m_brightness s)\<rparr>)"
  using assms
  by (simp add: write_segments_def write_loop_ok write_data_cmd_wire start_wire write_byte_wire
      stop_wire write_dsp_ctrl_wire TM1637_CMD2_def)

theorem write_transaction_witness:
  "length [0x06, 0x5B, 0x4F :: uint8_t] mod 3 = 0
   \<and> length [0x06, 0x5B, 0x4F :: uint8_t] \<le> 768
   \<and> write_segments [0x06, 0x5B, 0x4F] 9
       \<lparr>m_clk = 0, m_dio = 1, m_brightness = 2, wire = []\<rparr> =
     (Inr (), \<lparr>m_clk = 0, m_dio = 1, m_brightness = 2, wire =
        spec_command 0 1 0x40
        @ spec_start_condition 0 1
        @ spec_write_byte 0 1 0xC5
        @ spec_write_byte 0 1 0x4F @ spec_write_byte 0 1 0x5B @ spec_write_byte 0 1 0x06
        @ spec_stop_condition 0 1
        @ spec_command 0 1 0x8A\<rparr>)"
proof -
  have h1: "length [0x06, 0x5B, 0x4F :: uint8_t] mod 3 = 0"
    by simp
  have h2: "length [0x06, 0x5B, 0x4F :: uint8_t] \<le> 768"
    by simp
  show ?thesis
    using write_transaction [OF h1 h2, of 9 "\<lparr>m_clk = 0, m_dio = 1, m_brightness = 2, wire = []\<rparr>"]
    by (simp add: upt_0_3)
qed

text \<open>
  C10.  For every segment sequence of length 1 or 2 and every position, the first access of the
  loop of \<^verbatim>\<open>write\<close> is to index 2, out of bounds for the sequence: \<^verbatim>\<open>write\<close> raises after
  the address byte and before any segment byte.
\<close>

theorem write_short_raises:
  assumes "length segs = 1 \<or> length segs = 2"
  shows "unat (write_index 0) = 2
         \<and> write_segments segs p s =
             (Inl Out_Of_Range, s\<lparr>wire := wire s
                @ spec_command (m_clk s) (m_dio s) 0x40
                @ spec_start_condition (m_clk s) (m_dio s)
                @ spec_write_byte (m_clk s) (m_dio s) (0xC0 OR min p 5)\<rparr>)"
  using assms write_index_0
  by (simp add: write_segments_def write_loop_short write_data_cmd_wire start_wire write_byte_wire
      TM1637_CMD2_def)

theorem write_short_raises_witness:
  "length [0x3F, 0x06 :: uint8_t] = 2
   \<and> write_segments [0x3F, 0x06] 3 \<lparr>m_clk = 0, m_dio = 1, m_brightness = 7, wire = []\<rparr> =
       (Inl Out_Of_Range, \<lparr>m_clk = 0, m_dio = 1, m_brightness = 7, wire =
          spec_command 0 1 0x40 @ spec_start_condition 0 1 @ spec_write_byte 0 1 0xC3\<rparr>)"
proof -
  have h: "length [0x3F, 0x06 :: uint8_t] = 1 \<or> length [0x3F, 0x06 :: uint8_t] = 2"
    by simp
  show ?thesis
    using write_short_raises [OF h, of 3 "\<lparr>m_clk = 0, m_dio = 1, m_brightness = 7, wire = []\<rparr>"]
    by simp
qed

subsection \<open>Brightness\<close>

text \<open>
  C5.  For every input \<open>v\<close>, \<^verbatim>\<open>brightness\<close> stores exactly \<open>v AND 0b111\<close>, returns the stored
  value, and sends the Data command followed by the Display-control command, which carries the
  new brightness.
\<close>

theorem brightness_masks:
  "brightness v s =
     (v AND 0b111,
      s\<lparr>m_brightness := v AND 0b111,
        wire := wire s
          @ spec_command (m_clk s) (m_dio s) 0x40
          @ spec_command (m_clk s) (m_dio s) (0x80 OR 0x08 OR (v AND 0b111))\<rparr>)"
  by (simp add: brightness_def write_data_cmd_wire write_dsp_ctrl_wire)

subsection \<open>Encoding strings\<close>

text \<open>
  C2.  On the one-character string \<^verbatim>\<open>"."\<close> six blanks are expected, the leading dot being
  dropped without setting a bit or taking a slot (the value of \<open>spec_encode_string\<close>).  The code
  does otherwise: its first loop sizes the vector to no entry, and its second loop sends the
  leading dot (\<open>j = 0\<close>) to the branch that stores \<^verbatim>\<open>encode_char('.')\<close> through the unchecked
  \<^verbatim>\<open>segments[0]\<close>, a write past the end of the vector.
\<close>

theorem encode_string_lone_dot:
  "encode_string ''.'' = Inl Undefined_Behaviour
   \<and> spec_encode_string ''.'' = replicate 6 spec_blank"
  by (simp add: encode_string_def spec_encode_string_def spec_emit_def spec_blank_def)

text \<open>
  C6.  For every string that does not begin with a dot (so that every dot follows an emitted
  segment), the encoder succeeds; every dot sets the indicator bit \<open>0x80\<close> of the slot of the
  last character before it and takes no slot of its own: there are as many slots as characters
  other than dots (six at least, with the padding), the low seven bits of each slot are the
  pattern of its character, and the indicator bit is set only in a slot that a dot follows.
  In particular \<^verbatim>\<open>encode_string("1.2")\<close> is the pattern of 1 with the indicator bit, the pattern of
  2, and four blanks.
\<close>

theorem encode_string_dots:
  assumes "\<not> leading_dot str"
  shows "(\<exists>segments. encode_string str = Inr segments
           \<and> length segments = max 6 (length (non_dots str))
           \<and> (\<forall>i<length str. str ! i = CHR ''.'' \<longrightarrow>
                 bit (segments ! (length (non_dots (take i str)) - 1)) 7)
           \<and> (\<forall>k<length (non_dots str).
                 segments ! k AND 0x7F = encode_char (non_dots str ! k)
                 \<and> (bit (segments ! k) 7 \<longrightarrow>
                      (\<exists>i<length str. str ! i = CHR ''.''
                          \<and> length (non_dots (take i str)) = Suc k))))
         \<and> encode_string ''1.2'' =
             Inr [encode_char CHR ''1'' OR 0x80, encode_char CHR ''2'',
                  encode_char CHR '' '', encode_char CHR '' '',
                  encode_char CHR '' '', encode_char CHR '' '']"
proof (intro conjI exI)
  from assms have nodot: "str = [] \<or> hd str \<noteq> CHR ''.''"
    by (auto simp add: leading_dot_def)
  let ?m = "foldl spec_emit [] str"
  let ?d = "length (non_dots str)"
  have len: "length ?m = ?d"
    by (simp add: length_foldl_spec_emit)
  show enc: "encode_string str = Inr (spec_encode_string str)"
    using nodot by (rule encode_string_refines)
  show "length (spec_encode_string str) = max 6 ?d"
    by (simp add: spec_encode_string_def Let_def len)
  show "\<forall>i<length str. str ! i = CHR ''.'' \<longrightarrow>
          bit (spec_encode_string str ! (length (non_dots (take i str)) - 1)) 7"
  proof (intro allI impI)
    fix i
    assume i: "i < length str" and dot: "str ! i = CHR ''.''"
    have "length (non_dots (take i str)) \<le> ?d"
      by (subst (2) append_take_drop_id [of i str, symmetric])
         (simp add: non_dots_def del: append_take_drop_id)
    moreover have "non_dots (take i str) \<noteq> []"
      using nodot i dot by (rule non_dots_prefix_nonempty)
    ultimately have "length (non_dots (take i str)) - 1 < length ?m"
      by (cases "non_dots (take i str)") (simp_all add: len)
    then have "spec_encode_string str ! (length (non_dots (take i str)) - 1) =
               ?m ! (length (non_dots (take i str)) - 1)"
      by (simp add: spec_encode_string_def Let_def nth_append)
    then show "bit (spec_encode_string str ! (length (non_dots (take i str)) - 1)) 7"
      using dot_sets_msb [OF nodot i dot] by simp
  qed
  show "\<forall>k<?d. spec_encode_string str ! k AND 0x7F = encode_char (non_dots str ! k)
          \<and> (bit (spec_encode_string str ! k) 7 \<longrightarrow>
               (\<exists>i<length str. str ! i = CHR ''.''
                   \<and> length (non_dots (take i str)) = Suc k))"
  proof (intro allI impI conjI)
    fix k
    assume k: "k < ?d"
    then have nth: "spec_encode_string str ! k = ?m ! k"
      by (simp add: spec_encode_string_def Let_def nth_append len)
    have "map (\<lambda>b. b AND 0x7F) ?m ! k = map encode_char (non_dots str) ! k"
      by (simp only: low_bits_spec_emit)
    then show "spec_encode_string str ! k AND 0x7F = encode_char (non_dots str ! k)"
      using k by (simp add: nth len)
    assume "bit (spec_encode_string str ! k) 7"
    then have "bit (?m ! k) 7"
      by (simp only: nth)
    with k show "\<exists>i<length str. str ! i = CHR ''.''
                   \<and> length (non_dots (take i str)) = Suc k"
      by (intro msb_comes_from_dot) (simp_all add: len)
  qed
  show "encode_string ''1.2'' =
          Inr [encode_char CHR ''1'' OR 0x80, encode_char CHR ''2'',
               encode_char CHR '' '', encode_char CHR '' '',
               encode_char CHR '' '', encode_char CHR '' '']"
    by (simp add: encode_string_def pad_loop_eq encode_char_blank TM1637_MSB_def numeral_eq_Suc)
qed


theorem encode_string_dots_witness:
  "\<not> leading_dot ''12.5''
   \<and> (\<exists>segments. encode_string ''12.5'' = Inr segments
         \<and> length segments = 6
         \<and> bit (segments ! 1) 7
         \<and> segments ! 0 AND 0x7F = encode_char CHR ''1'')"
proof -
  have h: "\<not> leading_dot ''12.5''"
    by (simp add: leading_dot_def)
  from encode_string_dots [OF h] obtain segments
    where enc: "encode_string ''12.5'' = Inr segments"
      and len: "length segments = max 6 (length (non_dots ''12.5''))"
      and dots: "\<forall>i<length ''12.5''. ''12.5'' ! i = CHR ''.'' \<longrightarrow>
                   bit (segments ! (length (non_dots (take i ''12.5'')) - 1)) 7"
      and slots: "\<forall>k<length (non_dots ''12.5'').
                   segments ! k AND 0x7F = encode_char (non_dots ''12.5'' ! k)
                   \<and> (bit (segments ! k) 7 \<longrightarrow>
                        (\<exists>i<length ''12.5''. ''12.5'' ! i = CHR ''.''
                            \<and> length (non_dots (take i ''12.5'')) = Suc k))"
    by blast
  from len have "length segments = 6"
    by (simp add: non_dots_def)
  moreover from dots [rule_format, of 2] have "bit (segments ! 1) 7"
    by (simp add: non_dots_def)
  moreover from slots [rule_format, of 0]
  have "segments ! 0 AND 0x7F = encode_char CHR ''1''"
    by (simp add: non_dots_def)
  ultimately show ?thesis
    using h enc by blast
qed

text \<open>
  C7.  As stated, with the first entries being the encoded characters themselves, the property
  fails on a string with a dot: \<^verbatim>\<open>"1.2"\<close> has two characters other than dots and no leading dot,
  and its first entry is the pattern of 1 with the indicator bit, not the pattern of 1.
\<close>

theorem encode_string_pads_counterexample:
  "\<not> leading_dot ''1.2''
   \<and> 1 \<le> length (non_dots ''1.2'') \<and> length (non_dots ''1.2'') \<le> 6
   \<and> encode_string ''1.2'' = Inr [0x86, 0x5B, 0, 0, 0, 0]
   \<and> encode_string ''1.2'' \<noteq>
       Inr (map encode_char (non_dots ''1.2'')
            @ replicate (6 - length (non_dots ''1.2'')) (encode_char CHR '' ''))"
  by (simp add: leading_dot_def non_dots_def encode_string_def pad_loop_eq encode_char_def
      SEGMENTS_def TM1637_MSB_def replicate_numeral_Cons)

text \<open>
  C7, amended.  For every string that does not begin with a dot and has between one and six
  characters other than dots, the encoder returns exactly six entries: the encoded characters
  in order, each with the indicator bit \<open>0x80\<close> set exactly when a dot comes directly after it,
  then blanks.  A string with no dot gives exactly its encoded characters and the blanks; in
  particular \<^verbatim>\<open>encode_string("12345")\<close> is the five encoded characters followed by one blank.
\<close>

theorem encode_string_pads:
  assumes "\<not> leading_dot str"
    and "1 \<le> length (non_dots str)" and "length (non_dots str) \<le> 6"
  shows "(\<exists>segments. encode_string str = Inr segments
           \<and> length segments = 6
           \<and> segments = map spec_slot (spec_dotted str)
                          @ replicate (6 - length (non_dots str)) (encode_char CHR '' '')
           \<and> map (\<lambda>b. b AND 0x7F) (take (length (non_dots str)) segments)
               = map encode_char (non_dots str)
           \<and> (\<forall>k<length (non_dots str).
                 bit (segments ! k) 7 \<longleftrightarrow>
                   (\<exists>i<length str. str ! i = CHR ''.''
                       \<and> length (non_dots (take i str)) = Suc k))
           \<and> drop (length (non_dots str)) segments
               = replicate (6 - length (non_dots str)) (encode_char CHR '' '')
           \<and> (CHR ''.'' \<notin> set str \<longrightarrow>
                 segments = map encode_char str
                            @ replicate (6 - length str) (encode_char CHR '' '')))
         \<and> map fst (spec_dotted str) = non_dots str
         \<and> encode_string ''12345'' =
             Inr [encode_char CHR ''1'', encode_char CHR ''2'', encode_char CHR ''3'',
                  encode_char CHR ''4'', encode_char CHR ''5'', encode_char CHR '' '']"
proof (intro conjI exI)
  from assms(1) have nodot: "str = [] \<or> hd str \<noteq> CHR ''.''"
    by (auto simp add: leading_dot_def)
  let ?m = "foldl spec_emit [] str"
  let ?d = "length (non_dots str)"
  have len: "length ?m = ?d"
    by (simp add: length_foldl_spec_emit)
  have blank: "spec_blank = encode_char CHR '' ''"
    by (simp add: spec_blank_def encode_char_def)
  have whole: "spec_encode_string str = ?m @ replicate (6 - ?d) (encode_char CHR '' '')"
    by (simp add: spec_encode_string_def Let_def len blank)
  show "encode_string str = Inr (spec_encode_string str)"
    using nodot by (rule encode_string_refines)
  show "length (spec_encode_string str) = 6"
    using assms(3) by (simp add: whole len)
  show "spec_encode_string str = map spec_slot (spec_dotted str)
          @ replicate (6 - ?d) (encode_char CHR '' '')"
    by (simp only: whole spec_emit_slots)
  show "map (\<lambda>b. b AND 0x7F) (take ?d (spec_encode_string str)) = map encode_char (non_dots str)"
    by (simp add: whole len low_bits_spec_emit)
  show "\<forall>k<?d. bit (spec_encode_string str ! k) 7 \<longleftrightarrow>
          (\<exists>i<length str. str ! i = CHR ''.'' \<and> length (non_dots (take i str)) = Suc k)"
  proof (intro allI impI iffI)
    fix k
    assume k: "k < ?d"
    then have nth: "spec_encode_string str ! k = ?m ! k"
      by (simp add: whole nth_append len)
    {
      assume "bit (spec_encode_string str ! k) 7"
      then have "bit (?m ! k) 7"
        by (simp only: nth)
      with k show "\<exists>i<length str. str ! i = CHR ''.''
                     \<and> length (non_dots (take i str)) = Suc k"
        by (intro msb_comes_from_dot) (simp_all add: len)
    }
    {
      assume "\<exists>i<length str. str ! i = CHR ''.'' \<and> length (non_dots (take i str)) = Suc k"
      then obtain i where i: "i < length str" and dot: "str ! i = CHR ''.''"
        and cnt: "length (non_dots (take i str)) = Suc k"
        by blast
      from dot_sets_msb [OF nodot i dot] have "bit (?m ! k) 7"
        by (simp add: cnt)
      then show "bit (spec_encode_string str ! k) 7"
        by (simp only: nth)
    }
  qed
  show "drop ?d (spec_encode_string str) = replicate (6 - ?d) (encode_char CHR '' '')"
    by (simp add: whole len)
  show "CHR ''.'' \<notin> set str \<longrightarrow>
          spec_encode_string str
            = map encode_char str @ replicate (6 - length str) (encode_char CHR '' '')"
  proof
    assume "CHR ''.'' \<notin> set str"
    then show "spec_encode_string str
            = map encode_char str @ replicate (6 - length str) (encode_char CHR '' '')"
      by (simp add: spec_encode_string_def Let_def spec_emit_no_dots blank)
  qed
  show "map fst (spec_dotted str) = non_dots str"
    by (rule spec_dotted_chars)
  show "encode_string ''12345'' =
          Inr [encode_char CHR ''1'', encode_char CHR ''2'', encode_char CHR ''3'',
               encode_char CHR ''4'', encode_char CHR ''5'', encode_char CHR '' '']"
    by (simp add: encode_string_def pad_loop_eq encode_char_blank numeral_eq_Suc)
qed

theorem encode_string_pads_witness:
  "\<not> leading_dot ''-7.5''
   \<and> 1 \<le> length (non_dots ''-7.5'') \<and> length (non_dots ''-7.5'') \<le> 6
   \<and> encode_string ''-7.5'' = Inr [0x40, 0x87, 0x6D, 0, 0, 0]
   \<and> encode_string ''ab8'' = Inr [0x77, 0x7C, 0x7F, 0, 0, 0]"
proof -
  have h1: "\<not> leading_dot ''-7.5''"
    by (simp add: leading_dot_def)
  have h2: "1 \<le> length (non_dots ''-7.5'')"
    by (simp add: non_dots_def)
  have h3: "length (non_dots ''-7.5'') \<le> 6"
    by (simp add: non_dots_def)
  from encode_string_pads [OF h1 h2 h3] obtain segments
    where enc: "encode_string ''-7.5'' = Inr segments"
      and slots: "segments = map spec_slot (spec_dotted ''-7.5'')
                    @ replicate (6 - length (non_dots ''-7.5'')) (encode_char CHR '' '')"
    by blast
  from slots have dotted: "segments = [0x40, 0x87, 0x6D, 0, 0, 0]"
    by (simp add: spec_slot_def leading_dot_def non_dots_def encode_char_def SEGMENTS_def
        replicate_numeral_Cons)
  have g1: "\<not> leading_dot ''ab8''"
    by (simp add: leading_dot_def)
  have g2: "1 \<le> length (non_dots ''ab8'')"
    by (simp add: non_dots_def)
  have g3: "length (non_dots ''ab8'') \<le> 6"
    by (simp add: non_dots_def)
  have g4: "CHR ''.'' \<notin> set ''ab8''"
    by simp
  from encode_string_pads [OF g1 g2 g3] obtain plain
    where enc': "encode_string ''ab8'' = Inr plain"
      and all: "CHR ''.'' \<notin> set ''ab8'' \<longrightarrow>
                  plain = map encode_char ''ab8''
                          @ replicate (6 - length ''ab8'') (encode_char CHR '' '')"
    by blast
  from all g4 have "plain = [0x77, 0x7C, 0x7F, 0, 0, 0]"
    by (simp add: encode_char_def SEGMENTS_def replicate_numeral_Cons)
  with enc enc' dotted h1 h2 h3 show ?thesis
    by simp
qed

subsection \<open>Encoding characters\<close>

text \<open>
  C8.  For every character, \<^verbatim>\<open>encode_char\<close> returns the pattern selected in the priority order
  space to blank, \<open>*\<close> to star, \<open>-\<close> to dash, \<open>A\<close> to \<open>Z\<close> to the letter pattern, \<open>a\<close> to \<open>z\<close> to
  the same letter pattern, \<open>0\<close> to \<open>9\<close> to the digit pattern; every other character, the dot
  among them, gives the star pattern.
\<close>

theorem encode_char_priority:
  "encode_char ch = spec_encode_char ch \<and> encode_char CHR ''.'' = spec_star"
  by (simp add: encode_char_refines) (simp add: spec_encode_char_def)

subsection \<open>Display entry points\<close>

text \<open>
  C3.  The number display is expected to complete without failure for every value.  At 1000000
  it does not: the text has seven characters, the encoder returns seven segments, and the
  seventh access of the loop of \<^verbatim>\<open>write\<close> is to index 8, so that \<^verbatim>\<open>at\<close> raises after six
  segment bytes and neither the stop condition nor the Display-control command is sent.
\<close>

theorem number_million_raises:
  "number 1000000 s =
     (Inl Out_Of_Range, s\<lparr>wire := wire s
        @ spec_command (m_clk s) (m_dio s) 0x40
        @ spec_start_condition (m_clk s) (m_dio s)
        @ spec_write_byte (m_clk s) (m_dio s) 0xC0
        @ spec_write_byte (m_clk s) (m_dio s) 0x3F @ spec_write_byte (m_clk s) (m_dio s) 0x3F
        @ spec_write_byte (m_clk s) (m_dio s) 0x06 @ spec_write_byte (m_clk s) (m_dio s) 0x3F
        @ spec_write_byte (m_clk s) (m_dio s) 0x3F @ spec_write_byte (m_clk s) (m_dio s) 0x3F\<rparr>)"
proof -
  let ?segs = "[0x06, 0x3F, 0x3F, 0x3F, 0x3F, 0x3F, 0x3F] :: Segments"
  have digits: "setw 6 (number_text 10 1000000) = ''1000000''"
    by (simp add: number_text.simps setw_def digit_char_def)
  have enc: "encode_string ''1000000'' = Inr ?segs"
    by (simp add: encode_string_def pad_loop.simps encode_char_def SEGMENTS_def)
  let ?s = "write_byte (TM1637_CMD2 OR min 0 5) (start (write_data_cmd s))"
  have "length ?segs mod 3 \<noteq> 0" "length ?segs < 768" "0 \<le> 3 * (length ?segs div 3)"
    by simp_all
  then have "write_loop ?segs 0 ?s =
      (Inl Out_Of_Range, ?s\<lparr>wire := wire ?s @
         concat (map (\<lambda>k. spec_write_byte (m_clk ?s) (m_dio ?s) (?segs ! ((k div 3) * 6 + 2 - k)))
                     [0..<3 * (length ?segs div 3)])\<rparr>)"
    by (rule write_loop_raises)
  then have "write_segments ?segs 0 s =
     (Inl Out_Of_Range, s\<lparr>wire := wire s
        @ spec_command (m_clk s) (m_dio s) 0x40
        @ spec_start_condition (m_clk s) (m_dio s)
        @ spec_write_byte (m_clk s) (m_dio s) 0xC0
        @ spec_write_byte (m_clk s) (m_dio s) 0x3F @ spec_write_byte (m_clk s) (m_dio s) 0x3F
        @ spec_write_byte (m_clk s) (m_dio s) 0x06 @ spec_write_byte (m_clk s) (m_dio s) 0x3F
        @ spec_write_byte (m_clk s) (m_dio s) 0x3F @ spec_write_byte (m_clk s) (m_dio s) 0x3F\<rparr>)"
    by (simp add: write_segments_def write_data_cmd_wire start_wire write_byte_wire
        TM1637_CMD2_def upt_0_6)
  then show ?thesis
    by (simp add: number_def digits enc)
qed

text \<open>
  C9.  For every string and every two values of the colon flag, \<^verbatim>\<open>show\<close> from the same driver
  state gives the same outcome, the same wire log and the same resulting state.
\<close>

theorem show_colon_ignored:
  "show_text str b1 s = show_text str b2 s"
  by (simp add: show_text_def)

end
